theory Spec2Isabelle
  imports Main "HOL-Library.Sublist"
begin

section \<open>The view document (engine/view/document.js)\<close>

subsection \<open>Data\<close>

text \<open>
  A root of the view tree. The collection of roots is created with
  \<^verbatim>\<open>idProperty: 'rootName'\<close>, so the only field of a root the document reads
  is its \<open>rootName\<close>; everything else a root carries is the payload \<open>content\<close>.
\<close>

record 'e root =
  rootName :: string
  content :: 'e

text \<open>
  The fields of \<^verbatim>\<open>Document\<close> set by its constructor. \<open>roots\<close> holds the items
  of the \<^verbatim>\<open>Collection\<close>; \<open>postFixers\<close> holds the elements of the JavaScript
  \<^verbatim>\<open>Set\<close> in insertion order, which is the order in which a \<^verbatim>\<open>for ... of\<close>
  loop visits them. A callback is stored by reference: \<open>'f\<close> is the type of those
  references. The selection, the styles processor and the observers are objects
  of other modules and take no part in the functions below.
\<close>

record ('e, 'f) document =
  roots :: "'e root list"
  isReadOnly :: bool
  isFocused :: bool
  isComposing :: bool
  postFixers :: "'f list"

definition Document :: "('e, 'f) document" where
  "Document = \<lparr>roots = [], isReadOnly = False, isFocused = False,
                isComposing = False, postFixers = []\<rparr>"

subsection \<open>getRoot\<close>

text \<open>
  Modelled from the spec: \<^verbatim>\<open>Collection\<close> (package ckeditor5-utils) is not among the
  sources. The document "owns a mapping from root name to Root", and \<^verbatim>\<open>getRoot\<close>
  is documented to return "the view root element with the specified name or null
  when there is no root of given name": \<open>get\<close> looks the item up by the value of its
  id property, and \<open>None\<close> stands for \<^verbatim>\<open>null\<close>.
\<close>

definition collection_get :: "('a \<Rightarrow> string) \<Rightarrow> 'a list \<Rightarrow> string \<Rightarrow> 'a option" where
  "collection_get idProperty items ident = find (\<lambda>item. idProperty item = ident) items"

text \<open>
  \<^verbatim>\<open>getRoot( name = 'main' )\<close>: the argument is \<open>None\<close> when the caller passes
  nothing (or \<^verbatim>\<open>undefined\<close>), and the default value is used then.
\<close>

definition getRoot :: "('e, 'f) document \<Rightarrow> string option \<Rightarrow> 'e root option" where
  "getRoot d arg =
     collection_get rootName (roots d) (case arg of None \<Rightarrow> ''main'' | Some n \<Rightarrow> n)"

subsection \<open>registerPostFixer\<close>

text \<open>
  \<^verbatim>\<open>Set.prototype.add\<close>: a value that is already an element is not added again and
  keeps its place; a new value goes to the end of the iteration order.
\<close>

definition set_add :: "'a \<Rightarrow> 'a list \<Rightarrow> 'a list" where
  "set_add x xs = (if x \<in> set xs then xs else xs @ [x])"

definition registerPostFixer :: "('e, 'f) document \<Rightarrow> 'f \<Rightarrow> ('e, 'f) document" where
  "registerPostFixer d postFixer = d\<lparr>postFixers := set_add postFixer (postFixers d)\<rparr>"

subsection \<open>The post-fixer loop\<close>

text \<open>
  A post-fixer is called with the writer. It may change whatever the writer
  reaches, and it may register post-fixers with the document while the loop
  runs. \<open>'w\<close> is the state the writer reaches, and \<open>call f w\<close> runs the callback
  \<open>f\<close> in state \<open>w\<close>: it gives the truth value of what the callback returned
  (JavaScript tests it for truthiness), the post-fixers the callback registered,
  in the order of its calls of \<^verbatim>\<open>registerPostFixer\<close>, and the state the callback
  left. A callback is taken to return to the loop, neither throwing nor running
  forever.
\<close>

definition invoke ::
  "('f \<Rightarrow> 'w \<Rightarrow> bool \<times> 'f list \<times> 'w) \<Rightarrow> 'f \<Rightarrow> ('e, 'f) document \<Rightarrow> 'w \<Rightarrow> bool \<times> ('e, 'f) document \<times> 'w"
where
  "invoke call callback d w =
     (case call callback w of
        (result, registered, w') \<Rightarrow> (result, foldl registerPostFixer d registered, w'))"

text \<open>
  The loop itself has no observable result, so the functions below also keep a
  log of what was called: an event is a callback with its truth value, a pass is
  the list of events of one run of the \<^verbatim>\<open>for ... of\<close> loop, and the log of a run
  is the list of its passes.
\<close>

type_synonym 'f event = "'f \<times> bool"

text \<open>
  The \<^verbatim>\<open>for ( const callback of this._postFixers )\<close> loop with its \<^verbatim>\<open>break\<close>. The
  iterator of a \<^verbatim>\<open>Set\<close> reads the set as it is when the next element is asked
  for, so an element added while the loop runs is visited as well; \<open>i\<close> is the
  number of elements visited so far. The document has no method that removes a
  post-fixer, so the elements keep their positions. The variable \<^verbatim>\<open>wasFixed\<close> is
  assigned once for every callback called, and keeps the value it had when no
  callback is called. The loop may run forever; then the value is \<open>None\<close>.
\<close>

partial_function (option) forOf ::
  "('f \<Rightarrow> 'w \<Rightarrow> bool \<times> 'f list \<times> 'w) \<Rightarrow> nat \<Rightarrow> bool \<Rightarrow> ('e, 'f) document \<Rightarrow> 'w \<Rightarrow> 'f event list
     \<Rightarrow> (bool \<times> ('e, 'f) document \<times> 'w \<times> 'f event list) option"
where
  "forOf call i wasFixed d w evs =
     (if i < length (postFixers d) then
        (case invoke call (postFixers d ! i) d w of
           (wasFixed', d', w') \<Rightarrow>
             if wasFixed' then Some (wasFixed', d', w', evs @ [(postFixers d ! i, wasFixed')])
             else forOf call (Suc i) wasFixed' d' w' (evs @ [(postFixers d ! i, wasFixed')]))
      else Some (wasFixed, d, w, evs))"

declare forOf.simps [code]

text \<open>
  The \<^verbatim>\<open>do { ... } while ( wasFixed )\<close> loop. It may run forever, in a pass that
  does not end or in passes without end; then the value is \<open>None\<close>.
\<close>

partial_function (option) doWhile ::
  "('f \<Rightarrow> 'w \<Rightarrow> bool \<times> 'f list \<times> 'w) \<Rightarrow> bool \<Rightarrow> ('e, 'f) document \<Rightarrow> 'w \<Rightarrow> 'f event list list
     \<Rightarrow> (('e, 'f) document \<times> 'w \<times> 'f event list list) option"
where
  "doWhile call wasFixed d w log =
     (case forOf call 0 wasFixed d w [] of
        None \<Rightarrow> None
      | Some (wasFixed', d', w', evs) \<Rightarrow>
          if wasFixed' then doWhile call wasFixed' d' w' (log @ [evs])
          else Some (d', w', log @ [evs]))"

declare doWhile.simps [code]

text \<open>
  \<^verbatim>\<open>_callPostFixers( writer )\<close>: \<^verbatim>\<open>wasFixed\<close> starts as \<^verbatim>\<open>false\<close>. The result holds
  the document and the state as the run leaves them, and the log.
\<close>

definition callPostFixers ::
  "('f \<Rightarrow> 'w \<Rightarrow> bool \<times> 'f list \<times> 'w) \<Rightarrow> ('e, 'f) document \<Rightarrow> 'w
     \<Rightarrow> (('e, 'f) document \<times> 'w \<times> 'f event list list) option"
where
  "callPostFixers call d w = doWhile call False d w []"

subsection \<open>The run, turn by turn\<close>

text \<open>
  To speak of what a run has done so far, also when it never returns, the same
  two loops are taken one turn of the inner loop at a time. While the method
  runs, \<open>Running i wasFixed d w evs log\<close> holds the number \<open>i\<close> of elements the
  current pass has visited, the variable \<^verbatim>\<open>wasFixed\<close>, the document, the state,
  the events \<open>evs\<close> of the current pass and the passes \<open>log\<close> made before it.
  \<open>Returned d w log\<close> is the method after its return.

  A turn either calls the next callback, or finds the iteration at its end. When
  the callback returns true the pass is left by \<^verbatim>\<open>break\<close>, the test of the
  \<^verbatim>\<open>while\<close> holds and the next pass starts. At the end of the iteration the test
  of the \<^verbatim>\<open>while\<close> decides between another pass and the return.
\<close>

datatype ('e, 'f, 'w) run =
    Running nat bool "('e, 'f) document" 'w "'f event list" "'f event list list"
  | Returned "('e, 'f) document" 'w "'f event list list"

fun turn ::
  "('f \<Rightarrow> 'w \<Rightarrow> bool \<times> 'f list \<times> 'w) \<Rightarrow> ('e, 'f, 'w) run \<Rightarrow> ('e, 'f, 'w) run"
where
  "turn call (Running i wasFixed d w evs log) =
     (if i < length (postFixers d) then
        (case invoke call (postFixers d ! i) d w of
           (wasFixed', d', w') \<Rightarrow>
             if wasFixed' then Running 0 wasFixed' d' w' [] (log @ [evs @ [(postFixers d ! i, wasFixed')]])
             else Running (Suc i) wasFixed' d' w' (evs @ [(postFixers d ! i, wasFixed')]) log)
      else if wasFixed then Running 0 wasFixed d w [] (log @ [evs])
      else Returned d w (log @ [evs]))"
| "turn call (Returned d w log) = Returned d w log"

definition callPostFixers_upto ::
  "nat \<Rightarrow> ('f \<Rightarrow> 'w \<Rightarrow> bool \<times> 'f list \<times> 'w) \<Rightarrow> ('e, 'f) document \<Rightarrow> 'w \<Rightarrow> ('e, 'f, 'w) run"
where
  "callPostFixers_upto n call d w = (turn call ^^ n) (Running 0 False d w [] [])"

text \<open>What a run holds: its document, its state, its passes and its events.\<close>

fun run_document :: "('e, 'f, 'w) run \<Rightarrow> ('e, 'f) document" where
  "run_document (Running i wasFixed d w evs log) = d"
| "run_document (Returned d w log) = d"

fun run_state :: "('e, 'f, 'w) run \<Rightarrow> 'w" where
  "run_state (Running i wasFixed d w evs log) = w"
| "run_state (Returned d w log) = w"

fun run_passes :: "('e, 'f, 'w) run \<Rightarrow> 'f event list list" where
  "run_passes (Running i wasFixed d w evs log) = log @ [evs]"
| "run_passes (Returned d w log) = log"

fun has_returned :: "('e, 'f, 'w) run \<Rightarrow> bool" where
  "has_returned (Running i wasFixed d w evs log) = False"
| "has_returned (Returned d w log) = True"

text \<open>
  What a list of events says: \<open>invocations call w evs w'\<close> holds when calling the
  callbacks of \<open>evs\<close> one after the other, the first in state \<open>w\<close> and each next one
  in the state its predecessor left, gives the truth values recorded in \<open>evs\<close> and
  ends in state \<open>w'\<close>; \<open>registrations call w evs\<close> are the post-fixers those calls
  register, in order.
\<close>

fun invocations :: "('f \<Rightarrow> 'w \<Rightarrow> bool \<times> 'f list \<times> 'w) \<Rightarrow> 'w \<Rightarrow> 'f event list \<Rightarrow> 'w \<Rightarrow> bool" where
  "invocations call w [] w' = (w' = w)"
| "invocations call w ((callback, r) # evs) w' =
     (fst (call callback w) = r \<and> invocations call (snd (snd (call callback w))) evs w')"

fun registrations :: "('f \<Rightarrow> 'w \<Rightarrow> bool \<times> 'f list \<times> 'w) \<Rightarrow> 'w \<Rightarrow> 'f event list \<Rightarrow> 'f list" where
  "registrations call w [] = []"
| "registrations call w ((callback, r) # evs) =
     fst (snd (call callback w)) @ registrations call (snd (snd (call callback w))) evs"

text \<open>
  A pass that ran to the end with no callback reporting a change, and a pass
  that was abandoned at the callback of index \<open>k\<close>, the first to report one.
\<close>

definition full_pass :: "'f list \<Rightarrow> 'f event list" where
  "full_pass callbacks = map (\<lambda>c. (c, False)) callbacks"

definition abandoned_pass :: "'f list \<Rightarrow> nat \<Rightarrow> 'f event list" where
  "abandoned_pass callbacks k = full_pass (take k callbacks) @ [(callbacks ! k, True)]"

definition is_abandoned :: "'f list \<Rightarrow> 'f event list \<Rightarrow> bool" where
  "is_abandoned callbacks p = (\<exists>k<length callbacks. p = abandoned_pass callbacks k)"

text \<open>How often the callback \<open>f\<close> reported a change in a log.\<close>

definition true_returns :: "'f \<Rightarrow> 'f event list list \<Rightarrow> nat" where
  "true_returns f log = count_list (concat log) (f, True)"


text \<open>
  What follows a pass that ended with the variable \<^verbatim>\<open>wasFixed\<close> as given: the
  next pass, or the return.
\<close>

definition after_pass ::
  "bool \<Rightarrow> ('e, 'f) document \<Rightarrow> 'w \<Rightarrow> 'f event list \<Rightarrow> 'f event list list \<Rightarrow> ('e, 'f, 'w) run"
where
  "after_pass wasFixed d w evs log =
     (if wasFixed then Running 0 wasFixed d w [] (log @ [evs]) else Returned d w (log @ [evs]))"

text \<open>
  The shape of a run. While it runs, the current pass has called the first \<open>i\<close>
  registered post-fixers, none of which reported a change, every earlier pass
  was abandoned, and \<^verbatim>\<open>wasFixed\<close> is set only at the start of a pass over a set
  that is not empty. After the return every pass but the last was abandoned and
  the last is a full pass.
\<close>

fun pass_shape :: "('e, 'f, 'w) run \<Rightarrow> bool" where
  "pass_shape (Running i wasFixed d w evs log) =
     (i \<le> length (postFixers d) \<and> evs = full_pass (take i (postFixers d)) \<and>
      (\<forall>p\<in>set log. is_abandoned (postFixers d) p) \<and>
      (wasFixed \<longrightarrow> i = 0 \<and> postFixers d \<noteq> []))"
| "pass_shape (Returned d w log) =
     (log \<noteq> [] \<and> (\<forall>p\<in>set (butlast log). is_abandoned (postFixers d) p) \<and>
      last log = full_pass (postFixers d))"

text \<open>
  A run that started with the document \<open>d\<close> in state \<open>w\<close> is traced when its events
  are the calls made since then, its state is the state the last of them left,
  and its document is \<open>d\<close> with the post-fixers registered by those calls.
\<close>

definition traced ::
  "('f \<Rightarrow> 'w \<Rightarrow> bool \<times> 'f list \<times> 'w) \<Rightarrow> ('e, 'f) document \<Rightarrow> 'w \<Rightarrow> ('e, 'f, 'w) run \<Rightarrow> bool" where
  "traced call d w c \<longleftrightarrow>
     invocations call w (concat (run_passes c)) (run_state c) \<and>
     run_document c = foldl registerPostFixer d (registrations call w (concat (run_passes c)))"

section \<open>The empty element (engine/view/emptyelement.ts)\<close>

subsection \<open>Data\<close>

datatype error = CKEditorError string

text \<open>
  The argument \<^verbatim>\<open>items: Item | Iterable<Item>\<close>, where an \<^verbatim>\<open>Item\<close> is a
  \<^verbatim>\<open>Node\<close> or a \<^verbatim>\<open>TextProxy\<close>. \<open>Undefined\<close> is the argument left out, the
  one value here that JavaScript takes for false. An iterable is given by the
  finite list of what it yields.
\<close>

datatype ('n, 't) item = Node 'n | TextProxy 't

datatype ('n, 't) items = Undefined | Item "('n, 't) item" | Iterable "('n, 't) item list"

text \<open>
  The fields an \<^verbatim>\<open>EmptyElement\<close> has from \<^verbatim>\<open>Element\<close>: its name, its attributes
  and the array of its child nodes.
\<close>

record 'n emptyElement =
  name :: string
  attrs :: "(string \<times> string) list"
  children :: "'n list"

subsection \<open>_insertChild\<close>

definition truthy :: "('n, 't) items \<Rightarrow> bool" where
  "truthy items = (items \<noteq> Undefined)"

definition instanceof_Node :: "('n, 't) items \<Rightarrow> bool" where
  "instanceof_Node items = (case items of Item (Node _) \<Rightarrow> True | _ \<Rightarrow> False)"

text \<open>
  \<^verbatim>\<open>Array.from\<close> collects what an iterable yields. An object that is neither
  iterable nor has a \<^verbatim>\<open>length\<close>, as a single \<^verbatim>\<open>TextProxy\<close> is, gives the empty
  array.
\<close>

definition Array_from :: "('n, 't) items \<Rightarrow> ('n, 't) item list" where
  "Array_from items = (case items of Iterable xs \<Rightarrow> xs | _ \<Rightarrow> [])"

text \<open>
  The result is the element as the call leaves it together with either the
  error thrown or the number returned.
\<close>

definition insertChild ::
  "'n emptyElement \<Rightarrow> int \<Rightarrow> ('n, 't) items \<Rightarrow> (error + nat) \<times> 'n emptyElement"
where
  "insertChild elem index items =
     (if truthy items \<and> (instanceof_Node items \<or> length (Array_from items) > 0)
      then (Inl (CKEditorError ''view-emptyelement-cannot-add''), elem)
      else (Inr 0, elem))"

subsection \<open>is\<close>

text \<open>
  \<^verbatim>\<open>is( type, name? )\<close>: the second argument is \<open>None\<close> when it is left out. The
  test \<^verbatim>\<open>!name\<close> also holds for the empty string.
\<close>

definition is' :: "'n emptyElement \<Rightarrow> string \<Rightarrow> string option \<Rightarrow> bool" where
  "is' elem ty nm =
     (if nm = None \<or> nm = Some [] then
        ty = ''emptyElement'' \<or> ty = ''view:emptyElement'' \<or>
        ty = ''element'' \<or> ty = ''view:element'' \<or>
        ty = ''node'' \<or> ty = ''view:node''
      else
        nm = Some (name elem) \<and>
        (ty = ''emptyElement'' \<or> ty = ''view:emptyElement'' \<or>
         ty = ''element'' \<or> ty = ''view:element''))"

section \<open>Properties of the post-fixer loop\<close>

subsection \<open>Registering\<close>

lemma prefix_set_add: "prefix xs (set_add f xs)"
  by (simp add: set_add_def)

lemma distinct_set_add: "distinct xs \<Longrightarrow> distinct (set_add f xs)"
  by (simp add: set_add_def)

lemma set_add_idem: "set_add f (set_add f xs) = set_add f xs"
  by (simp add: set_add_def)

lemma postFixers_registerPostFixer:
  "postFixers (registerPostFixer d f) = set_add f (postFixers d)"
  by (simp add: registerPostFixer_def)

lemma registerPostFixer_fields:
  "registerPostFixer d f = d\<lparr>postFixers := postFixers (registerPostFixer d f)\<rparr>"
  by (simp add: registerPostFixer_def)

lemma prefix_registered:
  "prefix (postFixers d) (postFixers (foldl registerPostFixer d fs))"
proof (induction fs arbitrary: d)
  case Nil
  then show ?case by simp
next
  case (Cons f fs)
  have "prefix (postFixers d) (postFixers (registerPostFixer d f))"
    by (simp add: postFixers_registerPostFixer prefix_set_add)
  also have "prefix \<dots> (postFixers (foldl registerPostFixer (registerPostFixer d f) fs))"
    by (rule Cons.IH)
  finally show ?case by simp
qed

lemma distinct_registered:
  "distinct (postFixers d) \<Longrightarrow> distinct (postFixers (foldl registerPostFixer d fs))"
  by (induction fs arbitrary: d) (simp_all add: postFixers_registerPostFixer distinct_set_add)



lemma invoke_eq:
  "invoke call f d w = (fst (call f w), foldl registerPostFixer d (fst (snd (call f w))), snd (snd (call f w)))"
  by (simp add: invoke_def split: prod.splits)

lemma invoke_prefix:
  "invoke call f d w = (r, d', w') \<Longrightarrow> prefix (postFixers d) (postFixers d')"
  by (auto simp: invoke_eq prefix_registered)

subsection \<open>The loops and the run taken turn by turn\<close>

text \<open>
  A pass of the \<^verbatim>\<open>for ... of\<close> loop that ends is a number of turns that lead to
  what follows the pass, and the \<^verbatim>\<open>do ... while\<close> loop returns a result exactly
  when the run, taken turn by turn, has returned with that result after some
  number of turns.
\<close>

lemma turn_Returned: "(turn call ^^ n) (Returned d w log) = Returned d w log"
  by (induction n) simp_all

lemma forOf_turns_aux:
  assumes "forOf call i b d w evs = Some r"
  shows "\<forall>log. \<exists>n. (turn call ^^ n) (Running i b d w evs log)
            = (case r of (b', d', w', evs') \<Rightarrow> after_pass b' d' w' evs' log)"
proof (rule forOf.raw_induct
    [where P = "\<lambda>call i b d w evs r. \<forall>log. \<exists>n. (turn call ^^ n) (Running i b d w evs log)
                  = (case r of (b', d', w', evs') \<Rightarrow> after_pass b' d' w' evs' log)",
     OF _ assms])
  fix loop call i b d w evs r
  assume IH: "\<And>call i b d w evs r. loop call i b d w evs = Some r \<Longrightarrow>
                \<forall>log. \<exists>n. (turn call ^^ n) (Running i b d w evs log)
                   = (case r of (b', d', w', evs') \<Rightarrow> after_pass b' d' w' evs' log)"
  assume step: "(if i < length (postFixers d) then
        (case invoke call (postFixers d ! i) d w of
           (wasFixed', d', w') \<Rightarrow>
             if wasFixed' then Some (wasFixed', d', w', evs @ [(postFixers d ! i, wasFixed')])
             else loop call (Suc i) wasFixed' d' w' (evs @ [(postFixers d ! i, wasFixed')]))
      else Some (b, d, w, evs)) = Some r"
  show "\<forall>log. \<exists>n. (turn call ^^ n) (Running i b d w evs log)
                   = (case r of (b', d', w', evs') \<Rightarrow> after_pass b' d' w' evs' log)"
  proof
    fix log
    show "\<exists>n. (turn call ^^ n) (Running i b d w evs log)
                   = (case r of (b', d', w', evs') \<Rightarrow> after_pass b' d' w' evs' log)"
    proof (cases "i < length (postFixers d)")
      case False
      with step have "(turn call ^^ 1) (Running i b d w evs log)
                   = (case r of (b', d', w', evs') \<Rightarrow> after_pass b' d' w' evs' log)"
        by (auto simp: after_pass_def)
      then show ?thesis ..
    next
      case True
      obtain r1 d1 w1 where inv: "invoke call (postFixers d ! i) d w = (r1, d1, w1)"
        by (cases "invoke call (postFixers d ! i) d w")
      show ?thesis
      proof (cases r1)
        case True
        with step inv \<open>i < length (postFixers d)\<close>
        have "(turn call ^^ 1) (Running i b d w evs log)
                   = (case r of (b', d', w', evs') \<Rightarrow> after_pass b' d' w' evs' log)"
          by (auto simp: after_pass_def)
        then show ?thesis ..
      next
        case False
        with step inv True
        have "loop call (Suc i) False d1 w1 (evs @ [(postFixers d ! i, False)]) = Some r"
          by simp
        from IH [OF this] obtain n where
          "(turn call ^^ n) (Running (Suc i) False d1 w1 (evs @ [(postFixers d ! i, False)]) log)
             = (case r of (b', d', w', evs') \<Rightarrow> after_pass b' d' w' evs' log)" by blast
        with inv True False have "(turn call ^^ Suc n) (Running i b d w evs log)
             = (case r of (b', d', w', evs') \<Rightarrow> after_pass b' d' w' evs' log)"
          by (simp add: funpow_swap1)
        then show ?thesis ..
      qed
    qed
  qed
qed

lemma forOf_turns:
  "forOf call i b d w evs = Some (b', d', w', evs') \<Longrightarrow>
   \<exists>n. (turn call ^^ n) (Running i b d w evs log) = after_pass b' d' w' evs' log"
  using forOf_turns_aux [of call i b d w evs "(b', d', w', evs')"] by simp

lemma doWhile_turns:
  assumes "doWhile call b d w log = Some r"
  shows "\<exists>n. (turn call ^^ n) (Running 0 b d w [] log)
            = (case r of (d', w', log') \<Rightarrow> Returned d' w' log')"
proof (rule doWhile.raw_induct
    [where P = "\<lambda>call b d w log r. \<exists>n. (turn call ^^ n) (Running 0 b d w [] log)
                  = (case r of (d', w', log') \<Rightarrow> Returned d' w' log')",
     OF _ assms])
  fix loop call b d w log r
  assume IH: "\<And>call b d w log r. loop call b d w log = Some r \<Longrightarrow>
                \<exists>n. (turn call ^^ n) (Running 0 b d w [] log)
                   = (case r of (d', w', log') \<Rightarrow> Returned d' w' log')"
  assume step: "(case forOf call 0 b d w [] of
        None \<Rightarrow> None
      | Some (wasFixed', d', w', evs) \<Rightarrow>
          if wasFixed' then loop call wasFixed' d' w' (log @ [evs])
          else Some (d', w', log @ [evs])) = Some r"
  then obtain b1 d1 w1 evs1 where f: "forOf call 0 b d w [] = Some (b1, d1, w1, evs1)"
    by (cases "forOf call 0 b d w []") auto
  from forOf_turns [OF f] obtain m where
    m: "(turn call ^^ m) (Running 0 b d w [] log) = after_pass b1 d1 w1 evs1 log" by blast
  show "\<exists>n. (turn call ^^ n) (Running 0 b d w [] log)
                   = (case r of (d', w', log') \<Rightarrow> Returned d' w' log')"
  proof (cases b1)
    case False
    with step f m have "(turn call ^^ m) (Running 0 b d w [] log)
                   = (case r of (d', w', log') \<Rightarrow> Returned d' w' log')"
      by (auto simp: after_pass_def)
    then show ?thesis ..
  next
    case True
    with step f have "loop call True d1 w1 (log @ [evs1]) = Some r" by simp
    from IH [OF this] obtain n where
      "(turn call ^^ n) (Running 0 True d1 w1 [] (log @ [evs1]))
         = (case r of (d', w', log') \<Rightarrow> Returned d' w' log')" by blast
    with m True have "(turn call ^^ (n + m)) (Running 0 b d w [] log)
         = (case r of (d', w', log') \<Rightarrow> Returned d' w' log')"
      by (simp add: funpow_add after_pass_def)
    then show ?thesis ..
  qed
qed

lemma turns_forOf:
  "(turn call ^^ n) (Running i b d w evs log) = Returned dr wr lr \<Longrightarrow>
   \<exists>m b' d' w' evs'. m < n \<and> forOf call i b d w evs = Some (b', d', w', evs') \<and>
      (turn call ^^ m) (after_pass b' d' w' evs' log) = Returned dr wr lr"
proof (induction n arbitrary: i b d w evs)
  case 0
  then show ?case by simp
next
  case (Suc n)
  from Suc.prems have run: "(turn call ^^ n) (turn call (Running i b d w evs log)) = Returned dr wr lr"
    by (simp add: funpow_swap1)
  show ?case
  proof (cases "i < length (postFixers d)")
    case False
    then have "forOf call i b d w evs = Some (b, d, w, evs)"
      by (subst forOf.simps) simp
    moreover from False run have "(turn call ^^ n) (after_pass b d w evs log) = Returned dr wr lr"
      by (simp add: after_pass_def)
    ultimately show ?thesis by blast
  next
    case True
    obtain r1 d1 w1 where inv: "invoke call (postFixers d ! i) d w = (r1, d1, w1)"
      by (cases "invoke call (postFixers d ! i) d w")
    show ?thesis
    proof (cases r1)
      case True
      with inv \<open>i < length (postFixers d)\<close>
      have "forOf call i b d w evs = Some (True, d1, w1, evs @ [(postFixers d ! i, True)])"
        by (subst forOf.simps) simp
      moreover from True inv \<open>i < length (postFixers d)\<close> run
      have "(turn call ^^ n) (after_pass True d1 w1 (evs @ [(postFixers d ! i, True)]) log) = Returned dr wr lr"
        by (simp add: after_pass_def)
      ultimately show ?thesis by blast
    next
      case False
      with inv True run
      have "(turn call ^^ n) (Running (Suc i) False d1 w1 (evs @ [(postFixers d ! i, False)]) log) = Returned dr wr lr"
        by simp
      from Suc.IH [OF this] obtain m b' d' w' evs' where
        m: "m < n" "forOf call (Suc i) False d1 w1 (evs @ [(postFixers d ! i, False)]) = Some (b', d', w', evs')"
          "(turn call ^^ m) (after_pass b' d' w' evs' log) = Returned dr wr lr"
        by blast
      from m(2) inv True False have "forOf call i b d w evs = Some (b', d', w', evs')"
        by (subst forOf.simps) simp
      with m(1,3) show ?thesis by (meson less_Suc_eq)
    qed
  qed
qed

lemma turns_doWhile:
  "(turn call ^^ n) (Running 0 b d w [] log) = Returned dr wr lr \<Longrightarrow>
   doWhile call b d w log = Some (dr, wr, lr)"
proof (induction n arbitrary: b d w log rule: less_induct)
  case (less n)
  from turns_forOf [OF less.prems] obtain m b' d' w' evs' where
    m: "m < n" "forOf call 0 b d w [] = Some (b', d', w', evs')"
      "(turn call ^^ m) (after_pass b' d' w' evs' log) = Returned dr wr lr"
    by blast
  show ?case
  proof (cases b')
    case False
    with m(3) have "dr = d'" "wr = w'" "lr = log @ [evs']"
      by (simp_all add: after_pass_def turn_Returned)
    with m(2) False show ?thesis
      by (subst doWhile.simps) simp
  next
    case True
    with m(3) have "(turn call ^^ m) (Running 0 True d' w' [] (log @ [evs'])) = Returned dr wr lr"
      by (simp add: after_pass_def)
    from less.IH [OF m(1) this] m(2) True show ?thesis
      by (subst doWhile.simps) simp
  qed
qed

lemma callPostFixers_Some_iff:
  "callPostFixers call d w = Some (d', w', log) \<longleftrightarrow>
   (\<exists>n. callPostFixers_upto n call d w = Returned d' w' log)"
proof
  assume "callPostFixers call d w = Some (d', w', log)"
  then have "doWhile call False d w [] = Some (d', w', log)"
    by (simp add: callPostFixers_def)
  from doWhile_turns [OF this] show "\<exists>n. callPostFixers_upto n call d w = Returned d' w' log"
    by (simp add: callPostFixers_upto_def)
next
  assume "\<exists>n. callPostFixers_upto n call d w = Returned d' w' log"
  then obtain n where "(turn call ^^ n) (Running 0 False d w [] []) = Returned d' w' log"
    by (auto simp: callPostFixers_upto_def)
  from turns_doWhile [OF this] show "callPostFixers call d w = Some (d', w', log)"
    by (simp add: callPostFixers_def)
qed

lemma callPostFixers_None_iff:
  "callPostFixers call d w = None \<longleftrightarrow> (\<forall>n. \<not> has_returned (callPostFixers_upto n call d w))"
proof
  assume none: "callPostFixers call d w = None"
  show "\<forall>n. \<not> has_returned (callPostFixers_upto n call d w)"
  proof (intro allI notI)
    fix n assume "has_returned (callPostFixers_upto n call d w)"
    then obtain d' w' log where "callPostFixers_upto n call d w = Returned d' w' log"
      by (cases "callPostFixers_upto n call d w") auto
    then have "callPostFixers call d w = Some (d', w', log)"
      by (auto simp: callPostFixers_Some_iff)
    with none show False by simp
  qed
next
  assume never: "\<forall>n. \<not> has_returned (callPostFixers_upto n call d w)"
  show "callPostFixers call d w = None"
  proof (cases "callPostFixers call d w")
    case None
    then show ?thesis .
  next
    case (Some r)
    obtain d' w' log where "r = (d', w', log)" by (cases r)
    with Some obtain n where "callPostFixers_upto n call d w = Returned d' w' log"
      by (auto simp: callPostFixers_Some_iff)
    with never have False by (metis has_returned.simps(2))
    then show ?thesis ..
  qed
qed

lemma upto_Returned_mono:
  "callPostFixers_upto n call d w = Returned d' w' log \<Longrightarrow>
   callPostFixers_upto (n + m) call d w = Returned d' w' log"
  by (simp add: callPostFixers_upto_def funpow_add funpow_swap1 turn_Returned add.commute)

lemma upto_cases:
  assumes "callPostFixers_upto k call d w = Returned d' w' log"
  shows "n < k \<or> callPostFixers_upto n call d w = Returned d' w' log"
proof (cases "n < k")
  case True
  then show ?thesis ..
next
  case False
  then have "n = k + (n - k)" by simp
  with upto_Returned_mono [OF assms, of "n - k"] show ?thesis by simp
qed

subsection \<open>What holds of every run\<close>

text \<open>
  Every run has the shape of \<open>pass_shape\<close> and is traced, after any number of
  turns; its set of post-fixers only grows, at its end, and stays distinct.
\<close>

lemma is_abandoned_prefix:
  assumes "prefix ps ps1" and "is_abandoned ps p"
  shows "is_abandoned ps1 p"
proof -
  from assms(1) obtain zs where ps1: "ps1 = ps @ zs" by (auto simp: prefix_def)
  from assms(2) obtain k where k: "k < length ps" "p = abandoned_pass ps k"
    by (auto simp: is_abandoned_def)
  then have "p = abandoned_pass ps1 k"
    by (simp add: abandoned_pass_def ps1 nth_append)
  moreover from k(1) have "k < length ps1" by (simp add: ps1)
  ultimately show ?thesis by (auto simp: is_abandoned_def)
qed

lemma full_pass_snoc:
  "i < length ps \<Longrightarrow> full_pass (take i ps) @ [(ps ! i, False)] = full_pass (take (Suc i) ps)"
  by (simp add: full_pass_def take_Suc_conv_app_nth)

lemma take_prefix:
  "prefix ps ps1 \<Longrightarrow> i \<le> length ps \<Longrightarrow> take i ps1 = take i ps"
  by (auto simp: prefix_def)

lemma pass_shape_turn:
  assumes "pass_shape c"
  shows "pass_shape (turn call c)"
proof (cases c)
  case (Returned d w log)
  with assms show ?thesis by simp
next
  case (Running i b d w evs log)
  note c = this
  from assms c have i: "i \<le> length (postFixers d)"
    and evs: "evs = full_pass (take i (postFixers d))"
    and log: "\<forall>p\<in>set log. is_abandoned (postFixers d) p"
    and b: "b \<longrightarrow> i = 0 \<and> postFixers d \<noteq> []"
    by simp_all
  show ?thesis
  proof (cases "i < length (postFixers d)")
    case False
    with i have il: "i = length (postFixers d)" by simp
    with b have nb: "\<not> b" by auto
    from il evs have "evs = full_pass (postFixers d)" by simp
    with c False nb log show ?thesis by simp
  next
    case True
    obtain r d1 w1 where inv: "invoke call (postFixers d ! i) d w = (r, d1, w1)"
      by (cases "invoke call (postFixers d ! i) d w")
    from invoke_prefix [OF inv] have pre: "prefix (postFixers d) (postFixers d1)" .
    then have len: "length (postFixers d) \<le> length (postFixers d1)"
      by (rule prefix_length_le)
    from log pre have log1: "\<forall>p\<in>set log. is_abandoned (postFixers d1) p"
      by (blast intro: is_abandoned_prefix)
    show ?thesis
    proof (cases r)
      case True
      have "is_abandoned (postFixers d) (evs @ [(postFixers d ! i, True)])"
        using \<open>i < length (postFixers d)\<close> evs by (auto simp: is_abandoned_def abandoned_pass_def)
      with pre have "is_abandoned (postFixers d1) (evs @ [(postFixers d ! i, True)])"
        by (rule is_abandoned_prefix)
      moreover from \<open>i < length (postFixers d)\<close> len have "postFixers d1 \<noteq> []" by auto
      ultimately show ?thesis
        using c inv True \<open>i < length (postFixers d)\<close> log1 by (simp add: full_pass_def)
    next
      case False
      have "evs @ [(postFixers d ! i, False)] = full_pass (take (Suc i) (postFixers d))"
        using True evs by (simp add: full_pass_snoc)
      also have "take (Suc i) (postFixers d) = take (Suc i) (postFixers d1)"
        using pre True by (simp add: take_prefix)
      finally have "evs @ [(postFixers d ! i, False)] = full_pass (take (Suc i) (postFixers d1))" .
      moreover from True len have "Suc i \<le> length (postFixers d1)" by simp
      ultimately show ?thesis
        using c inv False True log1 by simp
    qed
  qed
qed

lemma pass_shape_upto: "pass_shape (callPostFixers_upto n call d w)"
proof (induction n)
  case 0
  show ?case by (simp add: callPostFixers_upto_def full_pass_def)
next
  case (Suc n)
  then show ?case by (simp add: callPostFixers_upto_def pass_shape_turn)
qed

lemma invocations_append:
  "invocations call w (xs @ ys) w'' \<longleftrightarrow> (\<exists>w'. invocations call w xs w' \<and> invocations call w' ys w'')"
  by (induction xs arbitrary: w) auto

lemma registrations_append:
  "invocations call w xs w' \<Longrightarrow>
   registrations call w (xs @ ys) = registrations call w xs @ registrations call w' ys"
  by (induction xs arbitrary: w) auto

lemma invocations_result:
  "invocations call w evs w' \<Longrightarrow> (g, r) \<in> set evs \<Longrightarrow> \<exists>s. fst (call g s) = r"
  by (induction evs arbitrary: w) auto

lemma traced_call:
  assumes inv: "invocations call w0 evs w"
    and doc: "d = foldl registerPostFixer d0 (registrations call w0 evs)"
    and call: "invoke call f d w = (r, d1, w1)"
  shows "invocations call w0 (evs @ [(f, r)]) w1"
    and "d1 = foldl registerPostFixer d0 (registrations call w0 (evs @ [(f, r)]))"
proof -
  from call have r: "r = fst (call f w)" and w1: "w1 = snd (snd (call f w))"
    and d1: "d1 = foldl registerPostFixer d (fst (snd (call f w)))"
    by (simp_all add: invoke_eq)
  from inv r w1 show "invocations call w0 (evs @ [(f, r)]) w1"
    by (auto simp: invocations_append)
  from d1 doc show "d1 = foldl registerPostFixer d0 (registrations call w0 (evs @ [(f, r)]))"
    by (simp add: registrations_append [OF inv])
qed

lemma traced_turn:
  assumes "traced call d0 w0 c"
  shows "traced call d0 w0 (turn call c)"
proof (cases c)
  case (Returned d w log)
  with assms show ?thesis by simp
next
  case (Running i b d w evs log)
  note c = this
  from assms c have inv: "invocations call w0 (concat log @ evs) w"
    and doc: "d = foldl registerPostFixer d0 (registrations call w0 (concat log @ evs))"
    by (simp_all add: traced_def)
  show ?thesis
  proof (cases "i < length (postFixers d)")
    case False
    with c inv doc show ?thesis by (simp add: traced_def)
  next
    case True
    obtain r d1 w1 where call: "invoke call (postFixers d ! i) d w = (r, d1, w1)"
      by (cases "invoke call (postFixers d ! i) d w")
    from traced_call [OF inv doc call] c True call show ?thesis
      by (cases r) (simp_all add: traced_def)
  qed
qed

lemma traced_upto: "traced call d w (callPostFixers_upto n call d w)"
proof (induction n)
  case 0
  show ?case by (simp add: callPostFixers_upto_def traced_def)
next
  case (Suc n)
  then show ?case by (simp add: callPostFixers_upto_def traced_turn)
qed

lemma turn_prefix:
  "prefix (postFixers (run_document c)) (postFixers (run_document (turn call c)))"
proof (cases c)
  case (Returned d w log)
  then show ?thesis by simp
next
  case (Running i b d w evs log)
  show ?thesis
  proof (cases "i < length (postFixers d)")
    case False
    with Running show ?thesis by simp
  next
    case True
    obtain r d1 w1 where call: "invoke call (postFixers d ! i) d w = (r, d1, w1)"
      by (cases "invoke call (postFixers d ! i) d w")
    from invoke_prefix [OF call] Running True call show ?thesis
      by (cases r) simp_all
  qed
qed

lemma upto_prefix_Suc:
  "prefix (postFixers (run_document (callPostFixers_upto n call d w)))
          (postFixers (run_document (callPostFixers_upto (Suc n) call d w)))"
  by (simp add: callPostFixers_upto_def turn_prefix)

lemma upto_prefix_mono:
  "m \<le> n \<Longrightarrow> prefix (postFixers (run_document (callPostFixers_upto m call d w)))
                      (postFixers (run_document (callPostFixers_upto n call d w)))"
proof (induction n)
  case 0
  then show ?case by simp
next
  case (Suc n)
  show ?case
  proof (cases "m = Suc n")
    case True
    then show ?thesis by simp
  next
    case False
    with Suc.prems have "m \<le> n" by simp
    from Suc.IH [OF this] upto_prefix_Suc [of n call d w] show ?thesis
      by (rule prefix_order.trans)
  qed
qed

lemma upto_prefix:
  "prefix (postFixers d) (postFixers (run_document (callPostFixers_upto n call d w)))"
  using upto_prefix_mono [of 0 n call d w] by (simp add: callPostFixers_upto_def)

lemma upto_distinct:
  "distinct (postFixers d) \<Longrightarrow> distinct (postFixers (run_document (callPostFixers_upto n call d w)))"
  using traced_upto [of call d w n] by (simp add: traced_def distinct_registered)


lemma turn_Running_call:
  assumes "pass_shape c" and "turn call c = Running i' b' d' w' evs' log'"
  shows "\<exists>i b d w evs log. c = Running i b d w evs log \<and> i < length (postFixers d) \<and>
           concat (run_passes (turn call c))
             = concat (run_passes c) @ [(postFixers d ! i, fst (call (postFixers d ! i) w))]"
proof (cases c)
  case (Returned d w log)
  with assms(2) show ?thesis by simp
next
  case (Running i b d w evs log)
  show ?thesis
  proof (cases "i < length (postFixers d)")
    case False
    with assms Running show ?thesis by (auto split: if_splits)
  next
    case True
    obtain r d1 w1 where call: "invoke call (postFixers d ! i) d w = (r, d1, w1)"
      by (cases "invoke call (postFixers d ! i) d w")
    then have "r = fst (call (postFixers d ! i) w)" by (simp add: invoke_eq)
    with Running True call show ?thesis by (cases r) simp_all
  qed
qed

lemma upto_events_count:
  "\<not> has_returned (callPostFixers_upto n call d w) \<Longrightarrow>
   length (concat (run_passes (callPostFixers_upto n call d w))) = n"
proof (induction n)
  case 0
  show ?case by (simp add: callPostFixers_upto_def)
next
  case (Suc n)
  let ?c = "callPostFixers_upto n call d w"
  have step: "callPostFixers_upto (Suc n) call d w = turn call ?c"
    by (simp add: callPostFixers_upto_def)
  from Suc.prems step obtain i' b' d' w' evs' log' where
    r: "turn call ?c = Running i' b' d' w' evs' log'"
    by (cases "turn call ?c") auto
  from turn_Running_call [OF pass_shape_upto r] obtain i b d1 w1 evs log where
    c: "?c = Running i b d1 w1 evs log"
    and ev: "concat (run_passes (turn call ?c))
             = concat (run_passes ?c) @ [(postFixers d1 ! i, fst (call (postFixers d1 ! i) w1))]"
    by blast
  from c have "\<not> has_returned ?c" by simp
  from Suc.IH [OF this] ev step show ?case by simp
qed

lemma upto_Running_shape:
  assumes "callPostFixers_upto n call d w = Running i b d' w' evs log"
  shows "(\<forall>p\<in>set log. \<exists>k<length (postFixers d'). p = abandoned_pass (postFixers d') k)"
    and "evs = full_pass (take i (postFixers d'))"
    and "i \<le> length (postFixers d')"
    and "length (concat log) + length evs = n"
    and "prefix (postFixers d) (postFixers d')"
    and "invocations call w (concat log @ evs) w'"
    and "d' = foldl registerPostFixer d (registrations call w (concat log @ evs))"
proof -
  from pass_shape_upto [of n call d w] assms
  show "\<forall>p\<in>set log. \<exists>k<length (postFixers d'). p = abandoned_pass (postFixers d') k"
    and "evs = full_pass (take i (postFixers d'))"
    and "i \<le> length (postFixers d')"
    by (simp_all add: is_abandoned_def)
  from upto_events_count [of n call d w] assms
  show "length (concat log) + length evs = n" by simp
  from upto_prefix [of d n call w] assms
  show "prefix (postFixers d) (postFixers d')" by simp
  from traced_upto [of call d w n] assms
  show "invocations call w (concat log @ evs) w'"
    and "d' = foldl registerPostFixer d (registrations call w (concat log @ evs))"
    by (simp_all add: traced_def)
qed

lemma upto_Returned_shape:
  assumes "callPostFixers_upto n call d w = Returned d' w' log"
  shows "log \<noteq> []"
    and "\<forall>p\<in>set (butlast log). \<exists>k<length (postFixers d'). p = abandoned_pass (postFixers d') k"
    and "last log = full_pass (postFixers d')"
    and "prefix (postFixers d) (postFixers d')"
    and "invocations call w (concat log) w'"
    and "d' = foldl registerPostFixer d (registrations call w (concat log))"
proof -
  from pass_shape_upto [of n call d w] assms
  show "log \<noteq> []"
    and "\<forall>p\<in>set (butlast log). \<exists>k<length (postFixers d'). p = abandoned_pass (postFixers d') k"
    and "last log = full_pass (postFixers d')"
    by (simp_all add: is_abandoned_def)
  from upto_prefix [of d n call w] assms
  show "prefix (postFixers d) (postFixers d')" by simp
  from traced_upto [of call d w n] assms
  show "invocations call w (concat log) w'"
    and "d' = foldl registerPostFixer d (registrations call w (concat log))"
    by (simp_all add: traced_def)
qed

subsection \<open>The order of the calls\<close>

text \<open>
  Claim C1. The callbacks are called in the order of their registration. A pass
  stops at the first callback that reports a change, leaving out the callbacks
  after it, and the next pass starts again at the first registered callback;
  passes are repeated until one pass has called every callback without any of
  them reporting a change.

  When the method returns with the document \<open>d'\<close>, every pass of the log but the
  last is a pass abandoned at some index \<open>k\<close> (the post-fixers before \<open>k\<close>, in the
  order of registration, reported no change and the one at \<open>k\<close> reported one),
  the last pass is the full pass over the post-fixers of \<open>d'\<close>, and the events of
  the log are the calls made, each in the state its predecessor left. The
  post-fixers of \<open>d'\<close> are those registered at the start, in their order, followed
  by those the callbacks registered during the run. When the method does not
  return, then after any number \<open>n\<close> of turns it is still running: it has made \<open>n\<close>
  calls, in abandoned passes and a current pass that has called the first \<open>i\<close>
  post-fixers without a change reported.
\<close>

theorem callPostFixers_passes:
  "(\<forall>d' w' log. callPostFixers call d w = Some (d', w', log) \<longrightarrow>
      log \<noteq> [] \<and>
      (\<forall>p\<in>set (butlast log). \<exists>k<length (postFixers d'). p = abandoned_pass (postFixers d') k) \<and>
      last log = full_pass (postFixers d') \<and>
      prefix (postFixers d) (postFixers d') \<and>
      invocations call w (concat log) w' \<and>
      d' = foldl registerPostFixer d (registrations call w (concat log))) \<and>
   (callPostFixers call d w = None \<longrightarrow>
      (\<forall>n. \<exists>i wasFixed d' w' evs log.
         callPostFixers_upto n call d w = Running i wasFixed d' w' evs log \<and>
         (\<forall>p\<in>set log. \<exists>k<length (postFixers d'). p = abandoned_pass (postFixers d') k) \<and>
         evs = full_pass (take i (postFixers d')) \<and>
         i \<le> length (postFixers d') \<and>
         length (concat log) + length evs = n \<and>
         prefix (postFixers d) (postFixers d') \<and>
         invocations call w (concat log @ evs) w'))"
proof (intro conjI allI impI)
  fix d' w' log
  assume "callPostFixers call d w = Some (d', w', log)"
  then obtain n where n: "callPostFixers_upto n call d w = Returned d' w' log"
    by (auto simp: callPostFixers_Some_iff)
  from upto_Returned_shape [OF n]
  show "log \<noteq> []"
    and "\<forall>p\<in>set (butlast log). \<exists>k<length (postFixers d'). p = abandoned_pass (postFixers d') k"
    and "last log = full_pass (postFixers d')"
    and "prefix (postFixers d) (postFixers d')"
    and "invocations call w (concat log) w'"
    and "d' = foldl registerPostFixer d (registrations call w (concat log))"
    by blast+
next
  fix n
  assume "callPostFixers call d w = None"
  then have "\<not> has_returned (callPostFixers_upto n call d w)"
    by (simp add: callPostFixers_None_iff)
  then obtain i b d' w' evs log where
    r: "callPostFixers_upto n call d w = Running i b d' w' evs log"
    by (cases "callPostFixers_upto n call d w") auto
  from upto_Running_shape [OF r] r
  show "\<exists>i wasFixed d' w' evs log.
         callPostFixers_upto n call d w = Running i wasFixed d' w' evs log \<and>
         (\<forall>p\<in>set log. \<exists>k<length (postFixers d'). p = abandoned_pass (postFixers d') k) \<and>
         evs = full_pass (take i (postFixers d')) \<and>
         i \<le> length (postFixers d') \<and>
         length (concat log) + length evs = n \<and>
         prefix (postFixers d) (postFixers d') \<and>
         invocations call w (concat log @ evs) w'"
    by blast
qed

theorem callPostFixers_passes_witness:
  "callPostFixers (\<lambda>f s. if f = (0::nat) then (False, [1], s) else (s = 0, [], Suc s))
      (registerPostFixer (Document :: (unit, nat) document) 0) (0::nat)
     = Some (registerPostFixer (registerPostFixer Document 0) 1, 2,
             [[(0, False), (1, True)], [(0, False), (1, False)]]) \<and>
   last [[(0::nat, False), (1, True)], [(0, False), (1, False)]]
     = full_pass (postFixers (registerPostFixer (registerPostFixer (Document :: (unit, nat) document) 0) 1)) \<and>
   invocations (\<lambda>f s. if f = (0::nat) then (False, [1], s) else (s = 0, [], Suc s)) (0::nat)
     (concat [[(0::nat, False), (1, True)], [(0, False), (1, False)]]) 2"
proof -
  have run: "callPostFixers (\<lambda>f s. if f = (0::nat) then (False, [1], s) else (s = 0, [], Suc s))
      (registerPostFixer (Document :: (unit, nat) document) 0) (0::nat)
     = Some (registerPostFixer (registerPostFixer Document 0) 1, 2,
             [[(0, False), (1, True)], [(0, False), (1, False)]])"
    by (simp add: callPostFixers_def doWhile.simps forOf.simps invoke_def
        registerPostFixer_def Document_def set_add_def)
  with callPostFixers_passes [of "\<lambda>f s. if f = (0::nat) then (False, [1], s) else (s = 0, [], Suc s)"
      "registerPostFixer (Document :: (unit, nat) document) 0" "0::nat"]
  show ?thesis by blast
qed

subsection \<open>The last pass\<close>

text \<open>
  Claim C2. The method returns only when all registered post-fixers have reported
  no change in one and the same pass: the last pass of a run that returned called
  every post-fixer registered by then, in order, those registered at the start
  among them, and each of them returned a false value. The state \<open>w0\<close> is the
  state in which that last pass started.
\<close>

theorem callPostFixers_final_pass:
  assumes "callPostFixers call d w = Some (d', w', log)"
  shows "log \<noteq> [] \<and> map fst (last log) = postFixers d' \<and> (\<forall>e\<in>set (last log). \<not> snd e) \<and>
         set (postFixers d) \<subseteq> set (postFixers d') \<and>
         (\<exists>w0. invocations call w (concat (butlast log)) w0 \<and> invocations call w0 (last log) w')"
proof -
  from assms obtain n where n: "callPostFixers_upto n call d w = Returned d' w' log"
    by (auto simp: callPostFixers_Some_iff)
  from upto_Returned_shape [OF n]
  have ne: "log \<noteq> []" and la: "last log = full_pass (postFixers d')"
    and pre: "prefix (postFixers d) (postFixers d')"
    and inv: "invocations call w (concat log) w'"
    by blast+
  from ne have "concat log = concat (butlast log) @ last log"
    by (metis append_butlast_last_id concat_append concat.simps append_Nil2)
  with inv have "\<exists>w0. invocations call w (concat (butlast log)) w0 \<and> invocations call w0 (last log) w'"
    by (simp add: invocations_append)
  moreover have "map fst (last log) = postFixers d'" "\<forall>e\<in>set (last log). \<not> snd e"
    using la by (auto simp: full_pass_def comp_def)
  moreover from pre have "set (postFixers d) \<subseteq> set (postFixers d')"
    by (rule set_mono_prefix)
  ultimately show ?thesis using ne by simp
qed

theorem callPostFixers_final_pass_witness:
  "callPostFixers (\<lambda>f s. (f < s, if f = 1 then [2] else [], if f < s then s - 1 else s))
      (registerPostFixer (registerPostFixer (Document :: (unit, nat) document) 0) 1) (1::nat)
     = Some (registerPostFixer (registerPostFixer (registerPostFixer Document 0) 1) 2, 0,
             [[(0, True)], [(0, False), (1, False), (2, False)]]) \<and>
   map fst (last [[(0::nat, True)], [(0, False), (1, False), (2, False)]])
     = postFixers (registerPostFixer (registerPostFixer (registerPostFixer (Document :: (unit, nat) document) 0) 1) 2) \<and>
   map snd (last [[(0::nat, True)], [(0, False), (1, False), (2, False)]]) = [False, False, False]"
proof -
  have run: "callPostFixers (\<lambda>f s. (f < s, if f = 1 then [2] else [], if f < s then s - 1 else s))
      (registerPostFixer (registerPostFixer (Document :: (unit, nat) document) 0) 1) (1::nat)
     = Some (registerPostFixer (registerPostFixer (registerPostFixer Document 0) 1) 2, 0,
             [[(0, True)], [(0, False), (1, False), (2, False)]])"
    by (simp add: callPostFixers_def doWhile.simps forOf.simps invoke_def
        registerPostFixer_def Document_def set_add_def)
  from callPostFixers_final_pass [OF run] run
  show ?thesis by simp
qed

subsection \<open>Termination\<close>

lemma true_returns_Cons:
  "true_returns f (p # log) = count_list p (f, True) + true_returns f log"
  by (simp add: true_returns_def)

lemma true_returns_append:
  "true_returns f (xs @ ys) = true_returns f xs + true_returns f ys"
  by (induction xs) (simp_all add: true_returns_Cons, simp add: true_returns_def)

lemma abandoned_true_return:
  assumes "is_abandoned cbs p"
  shows "1 \<le> (\<Sum>f\<in>set cbs. count_list p (f, True))"
proof -
  from assms obtain k where k: "k < length cbs" "p = abandoned_pass cbs k"
    by (auto simp: is_abandoned_def)
  then have "(cbs ! k, True) \<in> set p" by (simp add: abandoned_pass_def)
  then have "count_list p (cbs ! k, True) \<noteq> 0"
    by (simp add: count_list_0_iff)
  then have "1 \<le> count_list p (cbs ! k, True)"
    by simp
  also have "\<dots> \<le> (\<Sum>f\<in>set cbs. count_list p (f, True))"
    using k(1) by (intro member_le_sum) simp_all
  finally show ?thesis .
qed

lemma abandoned_passes_true_returns:
  "\<forall>p\<in>set log. is_abandoned cbs p \<Longrightarrow> length log \<le> (\<Sum>f\<in>set cbs. true_returns f log)"
proof (induction log)
  case Nil
  then show ?case by simp
next
  case (Cons p log)
  have "length (p # log) = 1 + length log" by simp
  also have "\<dots> \<le> (\<Sum>f\<in>set cbs. count_list p (f, True)) + (\<Sum>f\<in>set cbs. true_returns f log)"
    using Cons abandoned_true_return [of cbs p] by (intro add_mono) simp_all
  also have "\<dots> = (\<Sum>f\<in>set cbs. true_returns f (p # log))"
    by (simp add: true_returns_Cons sum.distrib)
  finally show ?case .
qed

lemma abandoned_length: "is_abandoned cbs p \<Longrightarrow> length p \<le> length cbs"
  by (auto simp: is_abandoned_def abandoned_pass_def full_pass_def)

lemma concat_length_bound:
  "\<forall>p\<in>set log. length p \<le> m \<Longrightarrow> length (concat log) \<le> length log * m"
  by (induction log) auto

lemma registered_bounded:
  assumes "\<forall>n. length (postFixers (run_document (callPostFixers_upto n call d w))) \<le> N"
  shows "\<exists>ps. \<forall>n. prefix (postFixers (run_document (callPostFixers_upto n call d w))) ps"
proof -
  let ?L = "\<lambda>n. postFixers (run_document (callPostFixers_upto n call d w))"
  have "\<exists>x. True \<and> (\<forall>y. True \<longrightarrow> length (?L y) \<le> length (?L x))"
  proof (rule Lattices_Big.ex_has_greatest_nat [where b = "Suc N"])
    show True ..
    from assms show "\<forall>y. True \<longrightarrow> length (?L y) < Suc N" by (simp add: less_Suc_eq_le)
  qed
  then obtain m where m: "\<And>n. length (?L n) \<le> length (?L m)" by blast
  have "prefix (?L n) (?L m)" for n
  proof (cases "n \<le> m")
    case True
    then show ?thesis by (rule upto_prefix_mono)
  next
    case False
    then have "prefix (?L m) (?L n)" by (intro upto_prefix_mono) simp
    with m [of n] have "?L n = ?L m"
      by (auto simp: prefix_def)
    then show ?thesis by simp
  qed
  then show ?thesis by blast
qed

text \<open>
  Claim C3, as amended. When only finitely many post-fixers are registered in the
  run, those that callbacks register while it runs included, and each post-fixer
  returns true only finitely often, the method terminates. Both conditions are
  said of the run after \<open>n\<close> turns, for all \<open>n\<close>: the number of registered
  post-fixers has a bound \<open>N\<close>, and for every callback \<open>f\<close> the number of events
  \<open>(f, True)\<close> has a bound \<open>B\<close>.
\<close>

theorem callPostFixers_terminates:
  assumes bounded: "\<exists>N. \<forall>n. length (postFixers (run_document (callPostFixers_upto n call d w))) \<le> N"
    and finitely: "\<forall>f. \<exists>B. \<forall>n. true_returns f (run_passes (callPostFixers_upto n call d w)) \<le> B"
  shows "\<exists>d' w' log. callPostFixers call d w = Some (d', w', log)"
proof (rule ccontr)
  assume "\<not> (\<exists>d' w' log. callPostFixers call d w = Some (d', w', log))"
  then have "callPostFixers call d w = None"
    by (cases "callPostFixers call d w") auto
  then have never: "\<And>n. \<not> has_returned (callPostFixers_upto n call d w)"
    by (simp add: callPostFixers_None_iff)
  from bounded obtain N where
    "\<forall>n. length (postFixers (run_document (callPostFixers_upto n call d w))) \<le> N" ..
  from registered_bounded [OF this] obtain ps where
    ps: "\<And>n. prefix (postFixers (run_document (callPostFixers_upto n call d w))) ps" by blast
  from choice [OF finitely] obtain B where
    B: "\<And>f n. true_returns f (run_passes (callPostFixers_upto n call d w)) \<le> B f" by blast
  define T where "T = (\<Sum>f\<in>set ps. B f)"
  define n where "n = Suc (T * length ps + length ps)"
  from never [of n] obtain i b d' w' evs log where
    r: "callPostFixers_upto n call d w = Running i b d' w' evs log"
    by (cases "callPostFixers_upto n call d w") auto
  from ps [of n] r have pre: "prefix (postFixers d') ps" by simp
  from pass_shape_upto [of n call d w] r
  have i: "i \<le> length (postFixers d')" and evs: "evs = full_pass (take i (postFixers d'))"
    and log: "\<forall>p\<in>set log. is_abandoned (postFixers d') p" by simp_all
  from log pre have log': "\<forall>p\<in>set log. is_abandoned ps p"
    by (blast intro: is_abandoned_prefix)
  have "length log \<le> (\<Sum>f\<in>set ps. true_returns f log)"
    using log' by (rule abandoned_passes_true_returns)
  also have "\<dots> \<le> (\<Sum>f\<in>set ps. B f)"
  proof (rule sum_mono)
    fix f
    have "true_returns f log \<le> true_returns f (log @ [evs])"
      by (simp add: true_returns_append)
    also have "\<dots> \<le> B f" using B [of f n] r by simp
    finally show "true_returns f log \<le> B f" .
  qed
  finally have passes: "length log \<le> T" by (simp add: T_def)
  from pre have lps: "length (postFixers d') \<le> length ps" by (rule prefix_length_le)
  from upto_events_count [of n call d w] never [of n] r
  have "n = length (concat log) + length evs" by simp
  also have "length (concat log) \<le> length log * length ps"
    using log' by (intro concat_length_bound) (blast intro: abandoned_length)
  also have "length evs \<le> length ps"
    using evs i lps by (simp add: full_pass_def)
  also have "length log * length ps \<le> T * length ps"
    using passes by simp
  finally show False by (simp add: n_def)
qed

theorem callPostFixers_terminates_witness:
  "callPostFixers (\<lambda>f s. (0 < s, [], s - 1)) (registerPostFixer (Document :: (unit, nat) document) 0) (1::nat)
     = Some (registerPostFixer Document 0, 0, [[(0, True)], [(0, False)]])"
proof -
  let ?call = "\<lambda>(f::nat) (s::nat). (0 < s, [] :: nat list, s - 1)"
  let ?d = "registerPostFixer (Document :: (unit, nat) document) 0"
  have end3: "callPostFixers_upto 3 ?call ?d 1 = Returned ?d 0 [[(0, True)], [(0, False)]]"
    by (simp add: callPostFixers_upto_def eval_nat_numeral invoke_def
        registerPostFixer_def Document_def set_add_def)
  have small: "n < 3 \<Longrightarrow> n = 0 \<or> n = 1 \<or> n = 2" for n :: nat by arith
  have u0: "callPostFixers_upto 0 ?call ?d 1 = Running 0 False ?d 1 [] []"
    by (simp add: callPostFixers_upto_def)
  have u1: "callPostFixers_upto 1 ?call ?d 1 = Running 0 True ?d 0 [] [[(0, True)]]"
    by (simp add: callPostFixers_upto_def invoke_def registerPostFixer_def Document_def set_add_def)
  have u2: "callPostFixers_upto 2 ?call ?d 1 = Running 1 False ?d 0 [(0, False)] [[(0, True)]]"
    by (simp add: callPostFixers_upto_def eval_nat_numeral invoke_def
        registerPostFixer_def Document_def set_add_def)
  have pf: "postFixers ?d = [0]"
    by (simp add: registerPostFixer_def Document_def set_add_def)
  have b: "length (postFixers (run_document (callPostFixers_upto n ?call ?d 1))) \<le> 1" for n
    using upto_cases [OF end3, of n] small [of n] u0 u1 u2 pf by auto
  have t: "true_returns f (run_passes (callPostFixers_upto n ?call ?d 1)) \<le> 1" for n f
    using upto_cases [OF end3, of n] small [of n] u0 u1 u2 by (auto simp: true_returns_def)
  from b have bounded: "\<exists>N. \<forall>n. length (postFixers (run_document (callPostFixers_upto n ?call ?d 1))) \<le> N"
    by blast
  from t have finitely: "\<forall>f. \<exists>B. \<forall>n. true_returns f (run_passes (callPostFixers_upto n ?call ?d 1)) \<le> B"
    by blast
  from callPostFixers_terminates [OF bounded finitely]
  obtain d' w' log where "callPostFixers ?call ?d 1 = Some (d', w', log)" by blast
  moreover have "callPostFixers ?call ?d 1 = Some (?d, 0, [[(0, True)], [(0, False)]])"
    using end3 by (auto simp: callPostFixers_Some_iff)
  ultimately show ?thesis by simp
qed

text \<open>
  The claim as first stated takes the set of post-fixers to be finite at the
  start only, and fails: when every post-fixer registers a new one and returns
  false, no callback ever returns true, and yet the first pass never ends.
\<close>

lemma chain_turn:
  assumes call: "\<forall>f s. fst (call f s) = False \<and> fst (snd (call f s)) = [Suc f]"
    and c: "c = Running i b d w evs log" and ps: "postFixers d = [0..<Suc m]" and i: "i \<le> m"
  shows "\<exists>i' b' d' w' evs' log' m'. turn call c = Running i' b' d' w' evs' log' \<and>
           postFixers d' = [0..<Suc m'] \<and> i' \<le> m'"
proof -
  from ps i have il: "i < length (postFixers d)" and cb: "postFixers d ! i = i"
    by (simp_all add: nth_upt del: upt_Suc)
  from call have r: "fst (call i w) = False" and regs: "fst (snd (call i w)) = [Suc i]"
    by simp_all
  let ?d1 = "registerPostFixer d (Suc i)"
  have inv: "invoke call (postFixers d ! i) d w = (False, ?d1, snd (snd (call i w)))"
    by (simp add: invoke_eq cb r regs)
  have t: "turn call c = Running (Suc i) False ?d1 (snd (snd (call i w))) (evs @ [(i, False)]) log"
    using c il inv cb by simp
  show ?thesis
  proof (cases "Suc i \<le> m")
    case True
    then have "postFixers ?d1 = [0..<Suc m]"
      by (simp add: postFixers_registerPostFixer ps set_add_def del: upt_Suc)
    with t True show ?thesis by blast
  next
    case False
    with i have "i = m" by simp
    then have "postFixers ?d1 = [0..<Suc (Suc m)]"
      by (simp add: postFixers_registerPostFixer ps set_add_def)
    with t \<open>i = m\<close> show ?thesis by blast
  qed
qed

lemma chain_never_returns:
  assumes call: "\<forall>f s. fst (call f s) = False \<and> fst (snd (call f s)) = [Suc f]"
    and ps: "postFixers d = [0..<Suc m]"
  shows "callPostFixers call d w = None"
proof -
  have "\<exists>i b d' w' evs log m'. callPostFixers_upto n call d w = Running i b d' w' evs log \<and>
           postFixers d' = [0..<Suc m'] \<and> i \<le> m'" for n
  proof (induction n)
    case 0
    from ps show ?case by (auto simp: callPostFixers_upto_def)
  next
    case (Suc n)
    then obtain i b d' w' evs log m' where
      c: "callPostFixers_upto n call d w = Running i b d' w' evs log"
      and ps': "postFixers d' = [0..<Suc m']" and i: "i \<le> m'" by blast
    from chain_turn [OF call c ps' i] show ?case
      by (simp add: callPostFixers_upto_def)
  qed
  then have "\<not> has_returned (callPostFixers_upto n call d w)" for n
    by (metis has_returned.simps(1))
  then show ?thesis by (simp add: callPostFixers_None_iff)
qed

theorem callPostFixers_growing_set_counterexample:
  "callPostFixers (\<lambda>f s. (False, [Suc f], s)) (registerPostFixer (Document :: (unit, nat) document) 0) ()
     = None"
  by (rule chain_never_returns [where m = 0])
    (simp_all add: registerPostFixer_def Document_def set_add_def)

subsection \<open>No bound on the number of passes\<close>

lemma never_false_diverges:
  assumes f: "f \<in> set (postFixers d)" and t: "\<forall>s. fst (call f s)"
  shows "callPostFixers call d w = None"
proof (cases "callPostFixers call d w")
  case None
  then show ?thesis .
next
  case (Some r)
  obtain d' w' log where r: "r = (d', w', log)" by (cases r)
  from Some r obtain n where n: "callPostFixers_upto n call d w = Returned d' w' log"
    by (auto simp: callPostFixers_Some_iff)
  from upto_Returned_shape [OF n]
  have ne: "log \<noteq> []" and la: "last log = full_pass (postFixers d')"
    and pre: "prefix (postFixers d) (postFixers d')"
    and inv: "invocations call w (concat log) w'"
    by blast+
  from pre f have "f \<in> set (postFixers d')" using set_mono_prefix by blast
  with la have "(f, False) \<in> set (last log)" by (auto simp: full_pass_def)
  with ne have "(f, False) \<in> set (concat log)" by (metis last_in_set UN_I set_concat)
  from invocations_result [OF inv this] t show ?thesis by simp
qed

text \<open>
  Claim C4. The loop has no cap on its iterations: when some registered
  post-fixer returns true whenever it is called, the method never returns. It has
  no result, and after any number \<open>n\<close> of turns the run has not returned; nothing
  stops it or raises an error.
\<close>

theorem callPostFixers_no_cap:
  assumes "f \<in> set (postFixers d)" and "\<forall>s. fst (call f s)"
  shows "callPostFixers call d w = None \<and> (\<forall>n. \<not> has_returned (callPostFixers_upto n call d w))"
  using never_false_diverges [of f d call w] assms by (simp add: callPostFixers_None_iff)

theorem callPostFixers_no_cap_witness:
  "(1::nat) \<in> set (postFixers (registerPostFixer (registerPostFixer (Document :: (unit, nat) document) 0) 1)) \<and>
   callPostFixers (\<lambda>f s. (f = (1::nat), [], Suc s))
      (registerPostFixer (registerPostFixer (Document :: (unit, nat) document) 0) 1) (0::nat) = None \<and>
   \<not> has_returned (callPostFixers_upto 1000 (\<lambda>f s. (f = (1::nat), [], Suc s))
      (registerPostFixer (registerPostFixer (Document :: (unit, nat) document) 0) 1) (0::nat))"
proof -
  have a: "(1::nat) \<in> set (postFixers (registerPostFixer (registerPostFixer (Document :: (unit, nat) document) 0) 1))"
    by (simp add: registerPostFixer_def Document_def set_add_def)
  have b: "\<forall>s::nat. fst (1 = (1::nat), [] :: nat list, Suc s)" by simp
  from callPostFixers_no_cap [of 1
      "registerPostFixer (registerPostFixer (Document :: (unit, nat) document) 0) 1"
      "\<lambda>f s. (f = (1::nat), [], Suc s)" "0::nat"] a b
  show ?thesis by blast
qed

subsection \<open>Registration\<close>

lemma distinct_Document: "distinct (postFixers Document)"
  by (simp add: Document_def)

lemma distinct_registerPostFixer:
  "distinct (postFixers d) \<Longrightarrow> distinct (postFixers (registerPostFixer d f))"
  by (simp add: registerPostFixer_def distinct_set_add)

lemma distinct_count_le_1: "distinct xs \<Longrightarrow> count_list xs x \<le> 1"
  by (induction xs) (auto simp: count_list_0_iff)


lemma full_pass_fst: "map fst (full_pass cbs) = cbs"
  by (simp add: full_pass_def comp_def)

lemma full_pass_once:
  "distinct cbs \<Longrightarrow> count_list (map fst (full_pass (take i cbs))) f \<le> 1"
proof -
  assume "distinct cbs"
  then have "distinct (take i cbs)" by (rule distinct_take)
  then have "count_list (take i cbs) f \<le> 1" by (rule distinct_count_le_1)
  then show ?thesis by (simp only: full_pass_fst)
qed

lemma abandoned_pass_fst:
  "k < length cbs \<Longrightarrow> map fst (abandoned_pass cbs k) = take (Suc k) cbs"
  by (simp add: abandoned_pass_def full_pass_def comp_def take_Suc_conv_app_nth)

lemma abandoned_pass_once:
  "distinct cbs \<Longrightarrow> is_abandoned cbs p \<Longrightarrow> count_list (map fst p) f \<le> 1"
proof -
  assume dist: "distinct cbs" and "is_abandoned cbs p"
  then obtain k where "k < length cbs" "p = abandoned_pass cbs k"
    by (auto simp: is_abandoned_def)
  then have "map fst p = take (Suc k) cbs" by (simp add: abandoned_pass_fst)
  moreover from dist have "distinct (take (Suc k) cbs)" by (rule distinct_take)
  ultimately show ?thesis by (simp only: distinct_count_le_1)
qed

lemma upto_pass_once:
  assumes dist: "distinct (postFixers d)"
    and p: "p \<in> set (run_passes (callPostFixers_upto n call d w))"
  shows "count_list (map fst p) f \<le> 1"
proof (cases "callPostFixers_upto n call d w")
  case (Running i b d' w' evs log)
  from upto_distinct [OF dist, of n call w] Running have d': "distinct (postFixers d')" by simp
  from pass_shape_upto [of n call d w] Running
  have evs: "evs = full_pass (take i (postFixers d'))"
    and log: "\<forall>p\<in>set log. is_abandoned (postFixers d') p" by simp_all
  from p Running have "p \<in> set log \<or> p = evs" by auto
  then show ?thesis
  proof
    assume "p \<in> set log"
    with log have "is_abandoned (postFixers d') p" by simp
    with d' show ?thesis by (rule abandoned_pass_once)
  next
    assume "p = evs"
    with evs d' show ?thesis by (simp only: full_pass_once)
  qed
next
  case (Returned d' w' log)
  from upto_distinct [OF dist, of n call w] Returned have d': "distinct (postFixers d')" by simp
  from pass_shape_upto [of n call d w] Returned
  have ne: "log \<noteq> []" and ab: "\<forall>p\<in>set (butlast log). is_abandoned (postFixers d') p"
    and la: "last log = full_pass (postFixers d')" by simp_all
  from p Returned have pl: "p \<in> set log" by simp
  from ne pl have "p \<in> set (butlast log) \<or> p = last log"
    by (metis append_butlast_last_id in_set_conv_decomp rotate1.simps(2) set_ConsD set_rotate1)
  then show ?thesis
  proof
    assume "p \<in> set (butlast log)"
    with ab have "is_abandoned (postFixers d') p" by simp
    with d' show ?thesis by (rule abandoned_pass_once)
  next
    assume "p = last log"
    with la have "p = full_pass (take (length (postFixers d')) (postFixers d'))" by simp
    with d' show ?thesis by (simp only: full_pass_once)
  qed
qed

text \<open>
  Claim C5. Registering a post-fixer is idempotent: registering \<open>f\<close> a second time
  leaves the document, and with it the set of registered post-fixers, as the first
  registration left it, and \<open>f\<close> is called at most once in every pass of the
  loop. The elements of a \<^verbatim>\<open>Set\<close> are distinct, which is what the premise on
  the document says; it holds of a new document and registration keeps it. The
  passes are those of a run that returned and, for any run and any number \<open>n\<close> of
  turns, the passes made so far with the current one.
\<close>

theorem registerPostFixer_idempotent:
  "registerPostFixer (registerPostFixer d f) f = registerPostFixer d f \<and>
   (distinct (postFixers d) \<longrightarrow>
      (\<forall>n. \<forall>p\<in>set (run_passes (callPostFixers_upto n call (registerPostFixer (registerPostFixer d f) f) w)).
         count_list (map fst p) f \<le> 1) \<and>
      (\<forall>d' w' log. callPostFixers call (registerPostFixer (registerPostFixer d f) f) w = Some (d', w', log) \<longrightarrow>
         (\<forall>p\<in>set log. count_list (map fst p) f \<le> 1)))"
proof (intro conjI impI allI ballI)
  show "registerPostFixer (registerPostFixer d f) f = registerPostFixer d f"
    by (simp add: registerPostFixer_def set_add_idem)
next
  fix n p
  assume "distinct (postFixers d)"
  then have dist: "distinct (postFixers (registerPostFixer (registerPostFixer d f) f))"
    by (intro distinct_registerPostFixer)
  assume "p \<in> set (run_passes (callPostFixers_upto n call (registerPostFixer (registerPostFixer d f) f) w))"
  with dist show "count_list (map fst p) f \<le> 1" by (rule upto_pass_once)
next
  fix d' w' log p
  assume "distinct (postFixers d)"
  then have dist: "distinct (postFixers (registerPostFixer (registerPostFixer d f) f))"
    by (intro distinct_registerPostFixer)
  assume "callPostFixers call (registerPostFixer (registerPostFixer d f) f) w = Some (d', w', log)"
  then obtain n where
    "callPostFixers_upto n call (registerPostFixer (registerPostFixer d f) f) w = Returned d' w' log"
    by (auto simp: callPostFixers_Some_iff)
  moreover assume "p \<in> set log"
  ultimately have "p \<in> set (run_passes (callPostFixers_upto n call (registerPostFixer (registerPostFixer d f) f) w))"
    by simp
  with dist show "count_list (map fst p) f \<le> 1" by (rule upto_pass_once)
qed

theorem registerPostFixer_idempotent_witness:
  "distinct (postFixers (registerPostFixer (Document :: (unit, nat) document) 0)) \<and>
   registerPostFixer (registerPostFixer (registerPostFixer (Document :: (unit, nat) document) 0) 1) 1
     = registerPostFixer (registerPostFixer Document 0) 1 \<and>
   callPostFixers (\<lambda>f s. (f < s, [f], if f < s then s - 1 else s))
      (registerPostFixer (registerPostFixer (registerPostFixer (Document :: (unit, nat) document) 0) 1) 1) (2::nat)
     = Some (registerPostFixer (registerPostFixer Document 0) 1, 0,
             [[(0, True)], [(0, True)], [(0, False), (1, False)]]) \<and>
   list_all (\<lambda>p. count_list (map fst p) 1 \<le> 1)
     [[(0::nat, True)], [(0, True)], [(0, False), (1, False)]]"
proof -
  have dist: "distinct (postFixers (registerPostFixer (Document :: (unit, nat) document) 0))"
    by (simp add: registerPostFixer_def Document_def set_add_def)
  have run: "callPostFixers (\<lambda>f s. (f < s, [f], if f < s then s - 1 else s))
      (registerPostFixer (registerPostFixer (registerPostFixer (Document :: (unit, nat) document) 0) 1) 1) (2::nat)
     = Some (registerPostFixer (registerPostFixer Document 0) 1, 0,
             [[(0, True)], [(0, True)], [(0, False), (1, False)]])"
    by (simp add: callPostFixers_def doWhile.simps forOf.simps invoke_def
        registerPostFixer_def Document_def set_add_def)
  from registerPostFixer_idempotent [of "registerPostFixer (Document :: (unit, nat) document) 0" "1::nat"
      "\<lambda>f s. (f < s, [f], if f < s then s - 1 else s)" "2::nat"] dist run
  show ?thesis unfolding list_all_iff by blast
qed

subsection \<open>Roots\<close>

text \<open>
  Claim C6. \<^verbatim>\<open>getRoot(name)\<close> returns a root of the document whose \<open>rootName\<close> is
  the name when there is one, and \<^verbatim>\<open>null\<close> when there is none; without an
  argument it does what \<^verbatim>\<open>getRoot('main')\<close> does.
\<close>

theorem getRoot_by_name:
  "getRoot d None = getRoot d (Some ''main'') \<and>
   ((\<exists>r\<in>set (roots d). rootName r = n) \<longrightarrow>
      (\<exists>r\<in>set (roots d). rootName r = n \<and> getRoot d (Some n) = Some r)) \<and>
   ((\<forall>r\<in>set (roots d). rootName r \<noteq> n) \<longrightarrow> getRoot d (Some n) = None)"
proof (intro conjI impI)
  show "getRoot d None = getRoot d (Some ''main'')"
    by (simp add: getRoot_def)
next
  assume "\<exists>r\<in>set (roots d). rootName r = n"
  then obtain r where "find (\<lambda>r. rootName r = n) (roots d) = Some r"
    by (cases "find (\<lambda>r. rootName r = n) (roots d)") (auto simp: find_None_iff)
  moreover from this have "r \<in> set (roots d) \<and> rootName r = n"
    by (auto simp: find_Some_iff)
  ultimately show "\<exists>r\<in>set (roots d). rootName r = n \<and> getRoot d (Some n) = Some r"
    by (auto simp: getRoot_def collection_get_def)
next
  assume "\<forall>r\<in>set (roots d). rootName r \<noteq> n"
  then show "getRoot d (Some n) = None"
    by (simp add: getRoot_def collection_get_def find_None_iff)
qed

theorem getRoot_by_name_witness:
  "getRoot ((Document :: (unit, nat) document)
       \<lparr>roots := [\<lparr>rootName = ''main'', content = ()\<rparr>, \<lparr>rootName = ''title'', content = ()\<rparr>]\<rparr>) None = getRoot ((Document :: (unit, nat) document)
       \<lparr>roots := [\<lparr>rootName = ''main'', content = ()\<rparr>, \<lparr>rootName = ''title'', content = ()\<rparr>]\<rparr>) (Some ''main'') \<and>
   getRoot ((Document :: (unit, nat) document)
       \<lparr>roots := [\<lparr>rootName = ''main'', content = ()\<rparr>, \<lparr>rootName = ''title'', content = ()\<rparr>]\<rparr>) (Some ''title'') = Some \<lparr>rootName = ''title'', content = ()\<rparr> \<and>
   getRoot ((Document :: (unit, nat) document)
       \<lparr>roots := [\<lparr>rootName = ''main'', content = ()\<rparr>, \<lparr>rootName = ''title'', content = ()\<rparr>]\<rparr>) (Some ''footer'') = None"
  using getRoot_by_name [of "(Document :: (unit, nat) document)
       \<lparr>roots := [\<lparr>rootName = ''main'', content = ()\<rparr>, \<lparr>rootName = ''title'', content = ()\<rparr>]\<rparr>" "''title''"]
    getRoot_by_name [of "(Document :: (unit, nat) document)
       \<lparr>roots := [\<lparr>rootName = ''main'', content = ()\<rparr>, \<lparr>rootName = ''title'', content = ()\<rparr>]\<rparr>" "''footer''"]
  by (simp add: Document_def)

subsection \<open>A run of one pass\<close>









section \<open>Properties of the empty element\<close>

subsection \<open>_insertChild\<close>

text \<open>
  Claim C8. \<^verbatim>\<open>_insertChild(index, items)\<close> throws the error
  \<^verbatim>\<open>view-emptyelement-cannot-add\<close> exactly when \<open>items\<close> is a node or an
  iterable that yields at least one item. When it does not throw it returns 0.
  In both cases the element is what it was before the call: no child is inserted.
\<close>

theorem insertChild_throws_iff:
  "(fst (insertChild elem index items) = Inl (CKEditorError ''view-emptyelement-cannot-add'')
      \<longleftrightarrow> (\<exists>n. items = Item (Node n)) \<or> (\<exists>xs. items = Iterable xs \<and> xs \<noteq> [])) \<and>
   (fst (insertChild elem index items) \<noteq> Inl (CKEditorError ''view-emptyelement-cannot-add'')
      \<longrightarrow> fst (insertChild elem index items) = Inr 0) \<and>
   snd (insertChild elem index items) = elem"
proof (cases items)
  case Undefined
  then show ?thesis by (simp add: insertChild_def truthy_def)
next
  case (Item i)
  then show ?thesis
    by (cases i) (simp_all add: insertChild_def truthy_def instanceof_Node_def Array_from_def)
next
  case (Iterable xs)
  then show ?thesis
    by (simp add: insertChild_def truthy_def instanceof_Node_def Array_from_def)
qed

theorem insertChild_throws_iff_witness:
  "fst (insertChild \<lparr>name = ''img'', attrs = [], children = ([] :: nat list)\<rparr> 0
          (Iterable [Node (1::nat), TextProxy ''a''])) = Inl (CKEditorError ''view-emptyelement-cannot-add'') \<and>
   snd (insertChild \<lparr>name = ''img'', attrs = [], children = ([] :: nat list)\<rparr> 0
          (Iterable [Node (1::nat), TextProxy ''a''])) = \<lparr>name = ''img'', attrs = [], children = []\<rparr> \<and>
   fst (insertChild \<lparr>name = ''img'', attrs = [], children = ([] :: nat list)\<rparr> 0
          (Iterable ([] :: (nat, string) item list))) = Inr 0"
  using insertChild_throws_iff [of "\<lparr>name = ''img'', attrs = [], children = ([] :: nat list)\<rparr>" 0
          "Iterable [Node (1::nat), TextProxy ''a'']"]
        insertChild_throws_iff [of "\<lparr>name = ''img'', attrs = [], children = ([] :: nat list)\<rparr>" 0
          "Iterable ([] :: (nat, string) item list)"]
  by simp

subsection \<open>is\<close>

text \<open>
  Claim C10, as amended. Called without a name, or with the empty string as the
  name, \<^verbatim>\<open>is(type)\<close> holds exactly for the six types \<open>emptyElement\<close>,
  \<open>view:emptyElement\<close>, \<open>element\<close>, \<open>view:element\<close>, \<open>node\<close> and \<open>view:node\<close>.
  Called with a name that is not empty, \<^verbatim>\<open>is(type, name)\<close> holds exactly when
  the name is the name of the element and the type is one of the first four. So
  \<^verbatim>\<open>is('node')\<close> holds, and \<^verbatim>\<open>is('node', e.name)\<close> does not when the name of
  the element is not empty.
\<close>

theorem is_type_name:
  "(nm = None \<or> nm = Some '''' \<longrightarrow>
      (is' elem ty nm \<longleftrightarrow>
        ty \<in> {''emptyElement'', ''view:emptyElement'', ''element'', ''view:element'', ''node'', ''view:node''})) \<and>
   (\<forall>n. nm = Some n \<and> n \<noteq> '''' \<longrightarrow>
      (is' elem ty nm \<longleftrightarrow>
        n = name elem \<and> ty \<in> {''emptyElement'', ''view:emptyElement'', ''element'', ''view:element''})) \<and>
   is' elem ''node'' None \<and>
   (name elem \<noteq> '''' \<longrightarrow> \<not> is' elem ''node'' (Some (name elem)))"
  by (auto simp: is'_def)

theorem is_type_name_witness:
  "is' \<lparr>name = ''img'', attrs = [], children = ([] :: nat list)\<rparr> ''view:node'' None \<and>
   is' \<lparr>name = ''img'', attrs = [], children = ([] :: nat list)\<rparr> ''emptyElement'' (Some ''img'') \<and>
   \<not> is' \<lparr>name = ''img'', attrs = [], children = ([] :: nat list)\<rparr> ''element'' (Some ''br'') \<and>
   \<not> is' \<lparr>name = ''img'', attrs = [], children = ([] :: nat list)\<rparr> ''node'' (Some ''img'')"
  using is_type_name [of None "\<lparr>name = ''img'', attrs = [], children = ([] :: nat list)\<rparr>" "''view:node''"]
    is_type_name [of "Some ''img''" "\<lparr>name = ''img'', attrs = [], children = ([] :: nat list)\<rparr>" "''emptyElement''"]
    is_type_name [of "Some ''br''" "\<lparr>name = ''img'', attrs = [], children = ([] :: nat list)\<rparr>" "''element''"]
    is_type_name [of "Some ''img''" "\<lparr>name = ''img'', attrs = [], children = ([] :: nat list)\<rparr>" "''node''"]
  by simp

text \<open>
  The claim as first stated, that a call with a name holds exactly when the name
  is that of the element, fails for the empty string: an element named \<open>img\<close>
  answers \<^verbatim>\<open>is('element', '')\<close> with true.
\<close>

theorem is_empty_name_counterexample:
  "is' \<lparr>name = ''img'', attrs = [], children = ([] :: nat list)\<rparr> ''element'' (Some '''') \<and>
   '''' \<noteq> name \<lparr>name = ''img'', attrs = [], children = ([] :: nat list)\<rparr>"
  by (simp add: is'_def)

end
